theory Spec2Isabelle
  imports Main "HOL-Library.Word"
begin

section \<open>The retry strategy (k2/transport/RetryStrategy.h)\<close>

text \<open>
  A \<open>seastar::future<>\<close> that has resolved is either ready or holds an exception.
  The exceptions that \<open>ExponentialBackoffStrategy::run\<close> distinguishes are the
  dispatcher's shutdown and timeout exceptions and the strategy's own
  \<open>DuplicateExecutionException\<close>; every other exception is carried by its message.
\<close>

datatype exn =
    DuplicateExecutionException
  | RequestTimeoutException
  | DispatcherShutdown
  | OtherException string

type_synonym future = "exn + unit"

text \<open>
  \<open>Duration\<close> and \<open>TimePoint\<close> are the clock's types from k2/common/Chrono.h,
  which is not part of the sources at hand: a \<open>std::chrono\<close> duration is a signed
  64-bit count of ticks, and a time point is such a count since the clock's epoch.
  Both are 64-bit words here, read as signed numbers with \<open>sint\<close>; sums,
  differences and products wrap around, which is the two's-complement result of
  the machine's arithmetic.
\<close>

type_synonym Duration = "64 word"
type_synonym TimePoint = "64 word"

text \<open>
  The private fields of the class, in declaration order. \<open>_retries\<close> and \<open>_try\<close>
  are C++ \<open>int\<close>; the loop only increments \<open>_try\<close> while it is below
  \<open>_retries\<close>, so it cannot overflow and \<open>int\<close> is exact.
\<close>

record ExponentialBackoffStrategy =
  retries :: int
  try_no :: int
  rate :: int
  currentTimeout :: Duration
  success :: bool
  used :: bool

text \<open>
  Modelled from the spec: the constructor and the three \<open>with...\<close> setters are
  defined in RetryStrategy.cpp, which is not part of the sources at hand. The spec's
  data model says that \<open>attempt\<close> starts at zero, that \<open>retries\<close>, \<open>rate\<close> and
  \<open>startTimeout\<close> are configured before use, and that \<open>used\<close> and
  \<open>succeeded\<close> are flags that are set later, so a configured strategy is:
\<close>

definition configured :: "int \<Rightarrow> int \<Rightarrow> Duration \<Rightarrow> ExponentialBackoffStrategy" where
  "configured n r t =
     \<lparr>retries = n, try_no = 0, rate = r, currentTimeout = t, success = False, used = False\<rparr>"

text \<open>
  The operated function is a closure: it may read and change its environment \<open>'e\<close>
  (the client's \<open>_stopped\<close> flag, the transport). It receives the remaining retries
  and the timeout to use and resolves to a future.
\<close>

type_synonym 'e operated = "'e \<Rightarrow> int \<Rightarrow> Duration \<Rightarrow> future \<times> 'e"

text \<open>
  One round of the \<open>do_until\<close> body of \<open>run\<close>: bump \<open>_try\<close>, multiply the
  timeout by it (\<open>_try\<close> is widened to the duration's 64-bit count and the product
  is taken there), call the function, turn a dispatcher shutdown into a timeout while
  fast-forwarding \<open>_try\<close>, then record success and keep the future as the result.
  The last component is the pair of arguments the function was called with.
\<close>

definition attempt :: "'e operated \<Rightarrow> ExponentialBackoffStrategy \<Rightarrow> 'e \<Rightarrow>
    ExponentialBackoffStrategy \<times> future \<times> 'e \<times> (int \<times> Duration)" where
  "attempt func st env =
     (let st1 = st\<lparr>try_no := try_no st + 1\<rparr>;
          st2 = st1\<lparr>currentTimeout := currentTimeout st1 * word_of_int (try_no st1)\<rparr>;
          args = (retries st2 - try_no st2, currentTimeout st2);
          called = func env (fst args) (snd args);
          st3 = (case fst called of
                   Inl DispatcherShutdown \<Rightarrow> st2\<lparr>try_no := retries st2\<rparr>
                 | _ \<Rightarrow> st2);
          fut = (case fst called of
                   Inl DispatcherShutdown \<Rightarrow> Inl RequestTimeoutException
                 | other \<Rightarrow> other);
          st4 = st3\<lparr>success := (case fut of Inr _ \<Rightarrow> True | Inl _ \<Rightarrow> False)\<rparr>
      in (st4, fut, snd called, args))"

text \<open>
  The \<open>do_until\<close> loop: it stops once \<open>_success\<close> holds or \<open>_try\<close> has reached
  \<open>_retries\<close>. The accumulated list holds the arguments of every call made, oldest
  first.
\<close>

function do_until :: "'e operated \<Rightarrow> ExponentialBackoffStrategy \<Rightarrow> future \<Rightarrow> 'e \<Rightarrow>
    (int \<times> Duration) list \<Rightarrow>
    ExponentialBackoffStrategy \<times> future \<times> 'e \<times> (int \<times> Duration) list" where
  "do_until func st result env calls =
     (if success st \<or> try_no st \<ge> retries st then (st, result, env, calls)
      else do_until func (fst (attempt func st env)) (fst (snd (attempt func st env)))
             (fst (snd (snd (attempt func st env))))
             (calls @ [snd (snd (snd (attempt func st env)))]))"
  by pat_completeness auto
termination
proof (relation "measure (\<lambda>(func, st, result, env, calls). nat (retries st - try_no st))")
  show "wf (measure (\<lambda>(func :: 'e operated, st, result :: future, env :: 'e,
      calls :: (int \<times> Duration) list). nat (retries st - try_no st)))"
    by simp
next
  fix func :: "'e operated" and st :: ExponentialBackoffStrategy and result :: future
    and env :: 'e and calls :: "(int \<times> Duration) list"
  assume "\<not> (success st \<or> retries st \<le> try_no st)"
  then have "try_no st < retries st" by simp
  moreover have "try_no (fst (attempt func st env)) = try_no st + 1 \<or>
      try_no (fst (attempt func st env)) = retries st"
    by (simp add: attempt_def Let_def split: sum.split exn.split)
  moreover have "retries (fst (attempt func st env)) = retries st"
    by (simp add: attempt_def Let_def split: sum.split exn.split)
  ultimately show "((func, fst (attempt func st env), fst (snd (attempt func st env)),
          fst (snd (snd (attempt func st env))),
          calls @ [snd (snd (snd (attempt func st env)))]),
         (func, st, result, env, calls))
        \<in> measure (\<lambda>(func, st, result, env, calls). nat (retries st - try_no st))"
    by auto
qed

declare do_until.simps [simp del]

text \<open>
  \<open>run\<close> itself: reject a used strategy, otherwise start the loop with a timeout
  exception as the result so far. Nothing in the function assigns \<open>_used\<close>.
\<close>

definition run :: "'e operated \<Rightarrow> ExponentialBackoffStrategy \<Rightarrow> 'e \<Rightarrow>
    ExponentialBackoffStrategy \<times> future \<times> 'e \<times> (int \<times> Duration) list" where
  "run func st env =
     (if used st then (st, Inl DuplicateExecutionException, env, [])
      else do_until func st (Inl RequestTimeoutException) env [])"

abbreviation calls_of :: "'a \<times> 'b \<times> 'c \<times> 'd \<Rightarrow> 'd" where
  "calls_of x \<equiv> snd (snd (snd x))"

abbreviation env_of :: "'a \<times> 'b \<times> 'c \<times> 'd \<Rightarrow> 'c" where
  "env_of x \<equiv> fst (snd (snd x))"

text \<open>
  An operated function that notes what it is called with: \<open>recording func\<close>
  behaves as \<open>func\<close> does on the first part of its environment and appends the
  remaining retries and the timeout it received to the second part. What is in
  that list after \<open>run\<close> is what the function was given, call by call.
\<close>

definition recording :: "'e operated \<Rightarrow> ('e \<times> (int \<times> Duration) list) operated" where
  "recording func =
     (\<lambda>env remaining timeout.
        (fst (func (fst env) remaining timeout),
         (snd (func (fst env) remaining timeout), snd env @ [(remaining, timeout)])))"

text \<open>A function that is refused on every call, and a start timeout of \<open>2 ^ 62\<close> ticks.\<close>

definition refused :: "unit operated" where
  "refused = (\<lambda>env remaining timeout. (Inl (OtherException ''refused''), env))"

definition hugeTimeout :: Duration where
  "hugeTimeout = 4611686018427387904"

section \<open>The benchmark client (k2/cmd/txbench/txbench_client.cpp)\<close>

type_synonym u32 = "32 word"
type_synonym u64 = "64 word"

text \<open>
  Modelled from the spec: \<open>SessionConfig\<close>, \<open>BenchSession\<close> and \<open>Ack\<close> are
  declared in txbench_common.h, which is not part of the sources at hand. The client
  shows which fields exist; the spec's data model gives their widths: the five
  configuration fields (\<open>u32\<close> apart from the flag), and \<open>u64\<close> for the session
  id, the four counters and the four fields of an ack. The session's endpoint
  belongs to the transport and is left out.
\<close>

record SessionConfig =
  echoMode :: bool
  responseSize :: u32
  pipelineSize :: u32
  pipelineCount :: u32
  ackCount :: u32

record BenchSession =
  config :: SessionConfig
  sessionID :: u64
  totalSize :: u64
  totalCount :: u64
  unackedSize :: u64
  unackedCount :: u64

record Ack =
  ack_sessionID :: u64
  ack_totalCount :: u64
  ack_totalSize :: u64
  ack_checksum :: u64

text \<open>
  The members of \<open>Client\<close> that the benchmark loop and the ACK observer touch. The
  histogram \<open>_requestLatency\<close> is kept as the list of durations added to it, oldest
  first; \<open>_requestIssueTimes\<close> is the vector of issue times.
\<close>

record Client =
  session :: BenchSession
  stopped :: bool
  haveSendPromise :: bool
  requestLatency :: "Duration list"
  requestIssueTimes :: "TimePoint list"
  lastAckedTotal :: u64

text \<open>
  What stops the process instead of returning: a failed \<open>K2ASSERT\<close>, the integer
  remainder by a zero \<open>pipelineCount\<close>, and a vector access past the end. The
  last two are undefined behaviour in C++; the model makes them results.
\<close>

datatype crash = AssertionFailed | DivisionByZero | IndexOutOfRange

text \<open>The warnings the ACK observer logs, one constructor per \<open>K2LOG_W\<close>.\<close>

datatype warning = UnknownSession | TooManyMessages | TooOld | TooMuchData | ChecksumMismatch

text \<open>
  What one call of the ACK observer does besides changing the client: the warnings
  logged, the indices of \<open>_requestIssueTimes\<close> read (in order), and whether
  \<open>_sendProm.set_value()\<close> was called.
\<close>

record AckEffects =
  warnings :: "warning list"
  ringReads :: "nat list"
  promiseSet :: bool

text \<open>
  The constructor's configuration, from the five command-line values. The product
  \<open>pipeline_depth_mbytes * 1024 * 1024\<close> is computed in \<open>uint32_t\<close> and wraps.
\<close>

definition sessionConfig :: "bool \<Rightarrow> u32 \<Rightarrow> u32 \<Rightarrow> u32 \<Rightarrow> u32 \<Rightarrow> SessionConfig" where
  "sessionConfig echo_mode request_size pipeline_depth_mbytes pipeline_depth_count ack_count =
     \<lparr>echoMode = echo_mode, responseSize = request_size,
      pipelineSize = pipeline_depth_mbytes * 1024 * 1024,
      pipelineCount = pipeline_depth_count, ackCount = ack_count\<rparr>"

text \<open>
  The constructor: stopped, no promise pending, \<open>_lastAckedTotal\<close> zero. The
  session's id and counters start at zero, as the spec's data model says of a
  session before the handshake.
\<close>

definition Client_ctor :: "SessionConfig \<Rightarrow> Client" where
  "Client_ctor cfg =
     \<lparr>session = \<lparr>config = cfg, sessionID = 0, totalSize = 0, totalCount = 0,
                 unackedSize = 0, unackedCount = 0\<rparr>,
      stopped = True, haveSendPromise = False, requestLatency = [],
      requestIssueTimes = [], lastAckedTotal = 0\<rparr>"

text \<open>
  \<open>_startSession\<close> on the path where the server answers with a session id:
  the vector is cleared and resized to \<open>pipelineCount\<close> (value-initialised time
  points), \<open>_lastAckedTotal\<close> is reset and the id is stored.
\<close>

definition startSession :: "u64 \<Rightarrow> Client \<Rightarrow> Client" where
  "startSession sid c =
     c\<lparr>requestIssueTimes := replicate (unat (pipelineCount (config (session c)))) 0,
       lastAckedTotal := 0,
       session := (session c)\<lparr>sessionID := sid\<rparr>\<rparr>"

text \<open>The client as \<open>_benchmark\<close> finds it: constructed, started, session open.\<close>

definition benchStart :: "SessionConfig \<Rightarrow> u64 \<Rightarrow> Client" where
  "benchStart cfg sid = startSession sid ((Client_ctor cfg)\<lparr>stopped := False\<rparr>)"

definition canSend :: "Client \<Rightarrow> bool" where
  "canSend c \<longleftrightarrow>
     unackedSize (session c) < ucast (pipelineSize (config (session c))) \<and>
     unackedCount (session c) < ucast (pipelineCount (config (session c)))"

text \<open>
  \<open>send\<close>: the assertion on the padding (two 8-byte fields), the four counter
  updates, then the time stamp at \<open>totalCount % pipelineCount\<close>. The payload goes
  to the transport and is not part of the client's state.
\<close>

definition send :: "TimePoint \<Rightarrow> Client \<Rightarrow> crash + Client" where
  "send now c =
     (let s = session c; cfg = config s; padding = (16 :: u64) in
      if \<not> padding < ucast (responseSize cfg) then Inl AssertionFailed
      else
        let s' = s\<lparr>totalSize := totalSize s + ucast (responseSize cfg),
                   totalCount := totalCount s + 1,
                   unackedSize := unackedSize s + ucast (responseSize cfg),
                   unackedCount := unackedCount s + 1\<rparr>
        in if pipelineCount cfg = 0 then Inl DivisionByZero
           else
             let idx = unat (totalCount s' mod ucast (pipelineCount cfg)) in
             if idx < length (requestIssueTimes c)
             then Inr (c\<lparr>session := s',
                         requestIssueTimes := (requestIssueTimes c)[idx := now]\<rparr>)
             else Inl IndexOutOfRange)"

text \<open>
  The latency loop of the ACK observer,
  \<open>for (reqid = totalCount - unackedCount; reqid < ack.totalCount; reqid++)\<close>,
  with the samples taken so far as accumulator: each is the index read and the
  duration added to the histogram.
\<close>

function sample_loop :: "TimePoint \<Rightarrow> u32 \<Rightarrow> TimePoint list \<Rightarrow> u64 \<Rightarrow> u64 \<Rightarrow>
    (nat \<times> Duration) list \<Rightarrow> crash + (nat \<times> Duration) list" where
  "sample_loop now pc ring reqid bound acc =
     (if reqid < bound then
        (if pc = 0 then Inl DivisionByZero
         else if unat (reqid mod ucast pc) < length ring
           then sample_loop now pc ring (reqid + 1) bound
                  (acc @ [(unat (reqid mod ucast pc), now - ring ! unat (reqid mod ucast pc))])
           else Inl IndexOutOfRange)
      else Inr acc)"
  by pat_completeness auto
termination
proof (relation "measure (\<lambda>(now, pc, ring, reqid, bound, acc). unat bound - unat reqid)")
  show "wf (measure (\<lambda>(now :: TimePoint, pc :: u32, ring :: TimePoint list, reqid :: u64,
      bound :: u64, acc :: (nat \<times> Duration) list). unat bound - unat reqid))"
    by simp
next
  fix now :: TimePoint and pc :: u32 and ring :: "TimePoint list" and reqid bound :: u64
    and acc :: "(nat \<times> Duration) list"
  assume "reqid < bound"
  then have lt: "unat reqid < unat bound" by (simp add: word_less_nat_alt)
  moreover have "unat bound < 2 ^ 64" using unsigned_less [of bound] by simp
  ultimately have "unat (reqid + 1) = unat reqid + 1"
    by (simp add: unat_word_ariths)
  with lt show "((now, pc, ring, reqid + 1, bound,
        acc @ [(unat (reqid mod ucast pc), now - ring ! unat (reqid mod ucast pc))]),
       (now, pc, ring, reqid, bound, acc))
      \<in> measure (\<lambda>(now, pc, ring, reqid, bound, acc). unat bound - unat reqid)"
    by simp
qed

declare sample_loop.simps [simp del]

text \<open>An ack that passes the three checks that end in \<open>return\<close>.\<close>

definition accepted :: "Client \<Rightarrow> Ack \<Rightarrow> bool" where
  "accepted c ack \<longleftrightarrow>
     ack_sessionID ack = sessionID (session c) \<and>
     ack_totalCount ack \<le> totalCount (session c) \<and>
     ack_totalSize ack \<le> totalSize (session c)"

text \<open>
  The observer registered for \<open>ACK\<close> in \<open>_benchmark\<close>. The argument is the
  payload read as an \<open>Ack\<close>, or \<open>None\<close> for a request without payload. The checks
  come in the source's order; only three of the five return.
\<close>

definition ackObserver :: "TimePoint \<Rightarrow> Ack option \<Rightarrow> Client \<Rightarrow> crash + Client \<times> AckEffects" where
  "ackObserver now payload c =
     (case payload of
        None \<Rightarrow> Inr (c, \<lparr>warnings = [], ringReads = [], promiseSet = False\<rparr>)
      | Some ack \<Rightarrow>
          let s = session c in
          if ack_sessionID ack \<noteq> sessionID s
          then Inr (c, \<lparr>warnings = [UnknownSession], ringReads = [], promiseSet = False\<rparr>)
          else if ack_totalCount ack > totalCount s
          then Inr (c, \<lparr>warnings = [TooManyMessages], ringReads = [], promiseSet = False\<rparr>)
          else
            let w1 = (if ack_totalCount ack \<le> lastAckedTotal c then [TooOld] else []) in
            if ack_totalSize ack > totalSize s
            then Inr (c, \<lparr>warnings = w1 @ [TooMuchData], ringReads = [], promiseSet = False\<rparr>)
            else
              let w2 = w1 @ (if ack_checksum ack \<noteq> (ack_totalCount ack * (ack_totalCount ack + 1)) div 2
                             then [ChecksumMismatch] else [])
              in case sample_loop now (pipelineCount (config s)) (requestIssueTimes c)
                        (totalCount s - unackedCount s) (ack_totalCount ack) [] of
                   Inl e \<Rightarrow> Inl e
                 | Inr samples \<Rightarrow>
                     Inr (c\<lparr>requestLatency := requestLatency c @ map snd samples,
                            session := s\<lparr>unackedCount := totalCount s - ack_totalCount ack,
                                         unackedSize := totalSize s - ack_totalSize ack\<rparr>,
                            haveSendPromise := False\<rparr>,
                          \<lparr>warnings = w2, ringReads = map fst samples,
                           promiseSet = haveSendPromise c\<rparr>))"

text \<open>
  The body of the sender's \<open>do_until\<close> loop: send when there is credit, otherwise
  assert that no promise is pending, install one and wait for it.
\<close>

definition loopBody :: "TimePoint \<Rightarrow> Client \<Rightarrow> crash + Client" where
  "loopBody now c =
     (if canSend c then send now c
      else if haveSendPromise c then Inl AssertionFailed
      else Inr (c\<lparr>haveSendPromise := True\<rparr>))"

text \<open>The timer's callback: stop, and wake the sender if it waits.\<close>

definition timerCallback :: "Client \<Rightarrow> Client" where
  "timerCallback c = c\<lparr>stopped := True, haveSendPromise := False\<rparr>"

text \<open>
  What can happen on the shard while the benchmark runs. The sender gets to run its
  loop body only while it is neither stopped (the loop's exit condition) nor waiting
  for its promise; the observer and the timer run whenever the reactor calls them.
\<close>

datatype event = SenderRuns TimePoint | AckArrives TimePoint "Ack option" | TimerFires

definition step :: "event \<Rightarrow> Client \<Rightarrow> crash + Client" where
  "step ev c =
     (case ev of
        SenderRuns now \<Rightarrow> if stopped c \<or> haveSendPromise c then Inr c else loopBody now c
      | AckArrives now payload \<Rightarrow> map_sum id fst (ackObserver now payload c)
      | TimerFires \<Rightarrow> Inr (timerCallback c))"

fun run_events :: "event list \<Rightarrow> Client \<Rightarrow> crash + Client" where
  "run_events [] c = Inr c"
| "run_events (ev # evs) c = (case step ev c of Inl e \<Rightarrow> Inl e | Inr c' \<Rightarrow> run_events evs c')"

text \<open>
  An ack advances when, if it is accepted, it leaves no more requests and no more
  bytes unacknowledged than there were before it. A list of events advances when
  each of its acks does in the state it arrives in.
\<close>

definition advances :: "event \<Rightarrow> Client \<Rightarrow> bool" where
  "advances ev c =
     (case ev of
        AckArrives now (Some ack) \<Rightarrow>
          \<not> accepted c ack \<or>
          (totalCount (session c) - ack_totalCount ack \<le> unackedCount (session c) \<and>
           totalSize (session c) - ack_totalSize ack \<le> unackedSize (session c))
      | _ \<Rightarrow> True)"

fun acks_advance :: "event list \<Rightarrow> Client \<Rightarrow> bool" where
  "acks_advance [] c = True"
| "acks_advance (ev # evs) c =
     (advances ev c \<and> (case step ev c of Inl e \<Rightarrow> True | Inr c' \<Rightarrow> acks_advance evs c'))"

text \<open>
  What \<open>_startSession\<close> and the credit check establish for the latency vector:
  it has \<open>pipelineCount\<close> slots, and with a zero \<open>pipelineCount\<close> nothing was
  ever sent.
\<close>

definition wellformed :: "Client \<Rightarrow> bool" where
  "wellformed c \<longleftrightarrow>
     length (requestIssueTimes c) = unat (pipelineCount (config (session c))) \<and>
     (pipelineCount (config (session c)) \<noteq> 0 \<or>
      totalCount (session c) = 0 \<and> unackedCount (session c) = 0)"

text \<open>
  The bound the credit check keeps: at most \<open>pipelineCount\<close> requests in flight, and
  fewer than \<open>pipelineSize + responseSize\<close> bytes, since a send needs only one byte
  of credit left.
\<close>

definition credit_bound :: "Client \<Rightarrow> bool" where
  "credit_bound c \<longleftrightarrow>
     unackedCount (session c) \<le> ucast (pipelineCount (config (session c))) \<and>
     unat (unackedSize (session c)) \<le>
       unat (pipelineSize (config (session c))) + unat (responseSize (config (session c))) - 1"

subsection \<open>A small session, step by step\<close>

text \<open>
  Requests of 512 bytes, one megabyte and two requests of credit; the server has
  answered the handshake with session id 7. \<open>oneSent\<close> is the client after the
  sender ran once at time 100, \<open>oneAcked\<close> after the ack for that request arrived at
  time 150, \<open>twoSent\<close> after a second send at time 200 on top of \<open>oneSent\<close>, and
  \<open>twoAcked\<close> after an ack for both arrived at time 250.
\<close>

definition exampleConfig :: SessionConfig where
  "exampleConfig = sessionConfig False 512 1 2 5"

definition ackOne :: Ack where
  "ackOne = \<lparr>ack_sessionID = 7, ack_totalCount = 1, ack_totalSize = 512, ack_checksum = 1\<rparr>"

definition ackTwo :: Ack where
  "ackTwo = \<lparr>ack_sessionID = 7, ack_totalCount = 2, ack_totalSize = 1024, ack_checksum = 3\<rparr>"

definition ackNothing :: Ack where
  "ackNothing = \<lparr>ack_sessionID = 7, ack_totalCount = 0, ack_totalSize = 0, ack_checksum = 0\<rparr>"

definition oneSent :: Client where
  "oneSent =
     \<lparr>session = \<lparr>config = exampleConfig, sessionID = 7, totalSize = 512, totalCount = 1,
                 unackedSize = 512, unackedCount = 1\<rparr>,
      stopped = False, haveSendPromise = False, requestLatency = [],
      requestIssueTimes = [0, 100], lastAckedTotal = 0\<rparr>"

definition oneAcked :: Client where
  "oneAcked =
     \<lparr>session = \<lparr>config = exampleConfig, sessionID = 7, totalSize = 512, totalCount = 1,
                 unackedSize = 0, unackedCount = 0\<rparr>,
      stopped = False, haveSendPromise = False, requestLatency = [150],
      requestIssueTimes = [0, 100], lastAckedTotal = 0\<rparr>"

definition twoSent :: Client where
  "twoSent =
     \<lparr>session = \<lparr>config = exampleConfig, sessionID = 7, totalSize = 1024, totalCount = 2,
                 unackedSize = 1024, unackedCount = 2\<rparr>,
      stopped = False, haveSendPromise = False, requestLatency = [],
      requestIssueTimes = [200, 100], lastAckedTotal = 0\<rparr>"

definition twoAcked :: Client where
  "twoAcked =
     \<lparr>session = \<lparr>config = exampleConfig, sessionID = 7, totalSize = 1024, totalCount = 2,
                 unackedSize = 0, unackedCount = 0\<rparr>,
      stopped = False, haveSendPromise = False, requestLatency = [50, 150],
      requestIssueTimes = [200, 100], lastAckedTotal = 0\<rparr>"

text \<open>Acks with a wrong checksum, and one for another session.\<close>

definition ackOneBad :: Ack where
  "ackOneBad = \<lparr>ack_sessionID = 7, ack_totalCount = 1, ack_totalSize = 512, ack_checksum = 99\<rparr>"

definition ackTwoBad :: Ack where
  "ackTwoBad = \<lparr>ack_sessionID = 7, ack_totalCount = 2, ack_totalSize = 1024, ack_checksum = 99\<rparr>"


text \<open>
  Two sessions at the edge of their credit. In the first a request is one byte
  larger than the whole byte credit; \<open>overshootState\<close> is the client after one send
  at time 5. In the second the credit is one request; \<open>staleState\<close> is the client
  after \<open>staleEvents\<close>: two requests sent and acknowledged in turn, then an ack that
  acknowledges nothing.
\<close>

definition overshootConfig :: SessionConfig where
  "overshootConfig = sessionConfig False 1048577 1 1 5"

definition overshootState :: Client where
  "overshootState =
     \<lparr>session = \<lparr>config = overshootConfig, sessionID = 7, totalSize = 1048577, totalCount = 1,
                 unackedSize = 1048577, unackedCount = 1\<rparr>,
      stopped = False, haveSendPromise = False, requestLatency = [],
      requestIssueTimes = [5], lastAckedTotal = 0\<rparr>"

definition staleConfig :: SessionConfig where
  "staleConfig = sessionConfig False 512 1 1 5"

definition staleEvents :: "event list" where
  "staleEvents =
     [SenderRuns 1, AckArrives 2 (Some ackOne), SenderRuns 3, AckArrives 4 (Some ackTwo),
      AckArrives 6 (Some ackNothing)]"

definition staleState :: Client where
  "staleState =
     \<lparr>session = \<lparr>config = staleConfig, sessionID = 7, totalSize = 1024, totalCount = 2,
                 unackedSize = 1024, unackedCount = 2\<rparr>,
      stopped = False, haveSendPromise = False, requestLatency = [1, 1],
      requestIssueTimes = [3], lastAckedTotal = 0\<rparr>"

section \<open>Properties of the retry strategy\<close>

lemma attempt_try_no:
  "try_no (fst (attempt func st env)) = try_no st + 1 \<or>
   try_no (fst (attempt func st env)) = retries st"
  by (simp add: attempt_def Let_def split: sum.split exn.split)

lemma attempt_retries: "retries (fst (attempt func st env)) = retries st"
  by (simp add: attempt_def Let_def split: sum.split exn.split)

lemma attempt_rate:
  "attempt func (st\<lparr>rate := r\<rparr>) env =
     ((fst (attempt func st env))\<lparr>rate := r\<rparr>, snd (attempt func st env))"
  by (simp add: attempt_def Let_def split: sum.split exn.split)

lemma do_until_rate:
  "do_until func (st\<lparr>rate := r\<rparr>) res env calls =
     ((fst (do_until func st res env calls))\<lparr>rate := r\<rparr>, snd (do_until func st res env calls))"
proof (induction func st res env calls rule: do_until.induct)
  case (1 func st result env calls)
  show ?case
  proof (cases "success st \<or> retries st \<le> try_no st")
    case True
    then show ?thesis by (simp add: do_until.simps)
  next
    case False
    then show ?thesis
      using "1.IH"
      by (subst do_until.simps, subst (2 3) do_until.simps) (simp add: attempt_rate)
  qed
qed

lemma attempt_timeout:
  "currentTimeout (fst (attempt func st env)) =
     currentTimeout st * word_of_int (try_no st + 1)"
  by (simp add: attempt_def Let_def split: sum.split exn.split)

lemma attempt_env:
  "env_of (attempt func st env) =
     snd (func env (retries st - (try_no st + 1))
            (currentTimeout st * word_of_int (try_no st + 1)))"
  by (simp add: attempt_def Let_def)

text \<open>
  The schedule, for any operated function that appends the arguments of each call
  to the second part of its environment: call \<open>k\<close> (from 1) is made with
  \<open>retries - k\<close> and with \<open>T \<cdot> k!\<close> in 64-bit arithmetic.
\<close>

lemma do_until_schedule:
  assumes noting: "\<And>e a t. snd (snd (g e a t)) = snd e @ [(a, t)]"
    and "\<forall>k<length (snd env). snd (snd env ! k) = T * of_nat (fact (Suc k)) \<and>
           fst (snd env ! k) = retries st - int (Suc k)"
    and "retries st \<le> try_no st \<or>
         (try_no st = int (length (snd env)) \<and>
          currentTimeout st = T * of_nat (fact (length (snd env))))"
  shows "\<forall>k<length (snd (env_of (do_until g st res env calls))).
           snd (snd (env_of (do_until g st res env calls)) ! k) = T * of_nat (fact (Suc k)) \<and>
           fst (snd (env_of (do_until g st res env calls)) ! k) = retries st - int (Suc k)"
  using assms
proof (induction g st res env calls rule: do_until.induct)
  case (1 g st result env calls)
  show ?case
  proof (cases "success st \<or> retries st \<le> try_no st")
    case True
    then show ?thesis using "1.prems"(2) by (simp add: do_until.simps)
  next
    case False
    let ?a = "attempt g st env"
    let ?seen = "snd env"
    from False "1.prems"(3) have cur: "try_no st = int (length ?seen)"
      "currentTimeout st = T * of_nat (fact (length ?seen))" by auto
    have "word_of_int (try_no st + 1) = (of_nat (Suc (length ?seen)) :: Duration)"
      by (simp add: cur(1))
    then have "currentTimeout st * word_of_int (try_no st + 1) =
        T * (of_nat (fact (length ?seen)) * of_nat (Suc (length ?seen)))"
      by (simp only: cur(2) mult.assoc)
    also have "of_nat (fact (length ?seen)) * of_nat (Suc (length ?seen)) =
        (of_nat (fact (Suc (length ?seen))) :: Duration)"
      by (simp add: algebra_simps)
    finally have tm: "currentTimeout st * word_of_int (try_no st + 1) =
        T * of_nat (fact (Suc (length ?seen)))" .
    have r: "retries st - (try_no st + 1) = retries st - int (Suc (length ?seen))"
      by (simp add: cur(1))
    have env': "snd (env_of ?a) =
        ?seen @ [(retries st - int (Suc (length ?seen)), T * of_nat (fact (Suc (length ?seen))))]"
      by (simp only: attempt_env "1.prems"(1) tm r)
    then have len: "length (snd (env_of ?a)) = Suc (length ?seen)" by simp
    have ct: "currentTimeout (fst ?a) = T * of_nat (fact (Suc (length ?seen)))"
      by (simp only: attempt_timeout tm)
    have a: "\<forall>k<length (snd (env_of ?a)).
        snd (snd (env_of ?a) ! k) = T * of_nat (fact (Suc k)) \<and>
        fst (snd (env_of ?a) ! k) = retries (fst ?a) - int (Suc k)"
      unfolding env' attempt_retries using "1.prems"(2)
      by (auto simp: nth_append less_Suc_eq)
    have b: "retries (fst ?a) \<le> try_no (fst ?a) \<or>
       (try_no (fst ?a) = int (length (snd (env_of ?a))) \<and>
        currentTimeout (fst ?a) = T * of_nat (fact (length (snd (env_of ?a)))))"
      unfolding len ct
      using attempt_try_no [of g st env] attempt_retries [of g st env] cur(1)
      by auto
    have step: "do_until g st result env calls =
        do_until g (fst ?a) (fst (snd ?a)) (env_of ?a) (calls @ [calls_of ?a])"
      using False by (subst do_until.simps) simp
    from "1.IH" [OF False "1.prems"(1) a b] show ?thesis
      unfolding step attempt_retries .
  qed
qed

lemma attempt_fails:
  assumes "fst (func env (retries st - (try_no st + 1))
              (currentTimeout st * word_of_int (try_no st + 1))) \<noteq> Inr ()"
    and "fst (func env (retries st - (try_no st + 1))
              (currentTimeout st * word_of_int (try_no st + 1))) \<noteq> Inl DispatcherShutdown"
  shows "\<not> success (fst (attempt func st env)) \<and>
    try_no (fst (attempt func st env)) = try_no st + 1"
  using assms by (auto simp: attempt_def Let_def split: sum.split exn.split)

lemma do_until_all_fail:
  assumes noting: "\<And>e a t. snd (snd (g e a t)) = snd e @ [(a, t)]"
    and "\<forall>e a t. fst (g e a t) \<noteq> Inr () \<and> fst (g e a t) \<noteq> Inl DispatcherShutdown"
    and "\<not> success st"
  shows "length (snd (env_of (do_until g st res env calls))) =
           length (snd env) + nat (retries st - try_no st)"
  using assms
proof (induction g st res env calls rule: do_until.induct)
  case (1 g st result env calls)
  show ?case
  proof (cases "success st \<or> retries st \<le> try_no st")
    case True
    then show ?thesis using "1.prems" by (simp add: do_until.simps)
  next
    case False
    have f: "\<not> success (fst (attempt g st env))"
      "try_no (fst (attempt g st env)) = try_no st + 1"
      using attempt_fails [of g env st] "1.prems"(2) by auto
    have len: "length (snd (env_of (attempt g st env))) = Suc (length (snd env))"
      by (simp add: attempt_env "1.prems"(1))
    from False have "Suc (nat (retries st - (try_no st + 1))) = nat (retries st - try_no st)"
      by arith
    with "1.IH" [OF False "1.prems"(1,2) f(1)] False f(2) len attempt_retries [of g st env]
    show ?thesis
      by (subst do_until.simps) simp
  qed
qed

lemma recording_notes: "snd (snd (recording func e a t)) = snd e @ [(a, t)]"
  by (simp add: recording_def)

lemma recording_result: "fst (recording func e a t) = fst (func (fst e) a t)"
  by (simp add: recording_def)

text \<open>Where a product fits the signed 64-bit range, the wrapped product is exact.\<close>

lemma sint_times_exact:
  fixes T :: Duration
  assumes "- (2 ^ 63) \<le> sint T * int m" and "sint T * int m < 2 ^ 63"
  shows "sint (T * of_nat m) = sint T * int m"
proof -
  have "T * of_nat m = word_of_int (sint T * int m)"
    by simp
  then have "sint (T * of_nat m) = signed_take_bit 63 (sint T * int m)"
    by (simp only: sint_sbintrunc') simp
  with assms show ?thesis by (simp add: signed_take_bit_int_eq_self)
qed

lemma sint_times_below:
  fixes T :: Duration
  assumes "- (2 ^ 63) \<le> sint T * 24" and "sint T * 24 < 2 ^ 63" and "m \<le> 24"
  shows "sint (T * of_nat m) = sint T * int m"
proof (rule sint_times_exact)
  have m: "0 \<le> int m" "int m \<le> 24" using assms(3) by simp_all
  show "- (2 ^ 63) \<le> sint T * int m"
  proof (cases "0 \<le> sint T")
    case True
    then have "0 \<le> sint T * int m" by simp
    then show ?thesis by simp
  next
    case False
    then have "sint T * 24 \<le> sint T * int m"
      using m by (intro mult_left_mono_neg) simp_all
    with assms(1) show ?thesis by simp
  qed
  show "sint T * int m < 2 ^ 63"
  proof (cases "0 \<le> sint T")
    case True
    then have "sint T * int m \<le> sint T * 24"
      using m by (intro mult_left_mono) simp_all
    with assms(2) show ?thesis by simp
  next
    case False
    then have "sint T * int m \<le> 0" using m by (simp add: mult_le_0_iff)
    then show ?thesis by simp
  qed
qed

lemma fact_small:
  "fact (Suc 0) = (1::nat)" "fact (Suc 1) = (2::nat)" "fact (Suc 2) = (6::nat)"
  "fact (Suc 3) = (24::nat)"
  by (simp_all add: fact_numeral numeral_2_eq_2 numeral_3_eq_3)

text \<open>
  Claim C3, as the code has it. A configured strategy with at least four retries
  calls the operated function, on attempt \<open>k\<close> (counted from 1), with the current
  timeout multiplied by \<open>k\<close> in the duration's 64-bit arithmetic. So every call that
  is made receives \<open>startTimeout \<cdot> k!\<close> modulo \<open>2 ^ 64\<close> (and \<open>retries - k\<close>), the
  first four receive \<open>T\<cdot>1, T\<cdot>2, T\<cdot>6, T\<cdot>24\<close>, and these are the exact products
  whenever \<open>T\<cdot>24\<close> fits the signed 64-bit range. All \<open>retries\<close> calls are made
  when the function neither succeeds nor reports a shutdown, and the outcome is
  the same for every \<open>rate\<close>.
\<close>

theorem run_timeout_schedule:
  assumes "4 \<le> n"
  shows "(\<forall>k<length (snd (env_of (run (recording func) (configured n r T) (env, [])))).
            snd (snd (env_of (run (recording func) (configured n r T) (env, []))) ! k) =
              T * of_nat (fact (Suc k)) \<and>
            fst (snd (env_of (run (recording func) (configured n r T) (env, []))) ! k) =
              n - int (Suc k)) \<and>
         (4 \<le> length (snd (env_of (run (recording func) (configured n r T) (env, [])))) \<longrightarrow>
            map snd (take 4 (snd (env_of (run (recording func) (configured n r T) (env, []))))) =
              [T * 1, T * 2, T * 6, T * 24] \<and>
            (- (2 ^ 63) \<le> sint T * 24 \<and> sint T * 24 < 2 ^ 63 \<longrightarrow>
               map (sint \<circ> snd)
                 (take 4 (snd (env_of (run (recording func) (configured n r T) (env, []))))) =
                 [sint T * 1, sint T * 2, sint T * 6, sint T * 24])) \<and>
         ((\<forall>e a t. fst (func e a t) \<noteq> Inr () \<and> fst (func e a t) \<noteq> Inl DispatcherShutdown) \<longrightarrow>
            length (snd (env_of (run (recording func) (configured n r T) (env, [])))) = nat n) \<and>
         snd (run (recording func) (configured n r' T) (env, [])) =
           snd (run (recording func) (configured n r T) (env, []))"
proof -
  let ?st = "configured n r T"
  let ?g = "recording func"
  let ?seen = "snd (env_of (run ?g ?st (env, [])))"
  have run_eq: "run ?g ?st (env, []) = do_until ?g ?st (Inl RequestTimeoutException) (env, []) []"
    by (simp add: run_def configured_def)
  have "\<forall>k<length ?seen. snd (?seen ! k) = T * of_nat (fact (Suc k)) \<and>
      fst (?seen ! k) = retries ?st - int (Suc k)"
    unfolding run_eq
    by (rule do_until_schedule) (simp_all add: configured_def recording_notes)
  then have sched: "\<forall>k<length ?seen. snd (?seen ! k) = T * of_nat (fact (Suc k)) \<and>
      fst (?seen ! k) = n - int (Suc k)"
    by (simp add: configured_def)
  have nth4: "snd (?seen ! 0) = T * 1" "snd (?seen ! 1) = T * 2" "snd (?seen ! 2) = T * 6"
    "snd (?seen ! 3) = T * 24" if "4 \<le> length ?seen"
  proof -
    from that have "0 < length ?seen" "1 < length ?seen" "2 < length ?seen" "3 < length ?seen"
      by linarith+
    with sched have "snd (?seen ! 0) = T * of_nat (fact (Suc 0))"
      "snd (?seen ! 1) = T * of_nat (fact (Suc 1))"
      "snd (?seen ! 2) = T * of_nat (fact (Suc 2))"
      "snd (?seen ! 3) = T * of_nat (fact (Suc 3))"
      by blast+
    then show "snd (?seen ! 0) = T * 1" "snd (?seen ! 1) = T * 2" "snd (?seen ! 2) = T * 6"
      "snd (?seen ! 3) = T * 24"
      unfolding fact_small by simp_all
  qed
  have four: "map snd (take 4 ?seen) = [T * 1, T * 2, T * 6, T * 24]" if "4 \<le> length ?seen"
  proof (rule nth_equalityI)
    show "length (map snd (take 4 ?seen)) = length [T * 1, T * 2, T * 6, T * 24]"
      using that by simp
  next
    fix i assume "i < length (map snd (take 4 ?seen))"
    then have i: "i < 4" "i < length ?seen" by simp_all
    then have "i = 0 \<or> i = 1 \<or> i = 2 \<or> i = 3" by arith
    with nth4 [OF that] i show "map snd (take 4 ?seen) ! i = [T * 1, T * 2, T * 6, T * 24] ! i"
      by auto
  qed
  have exact: "map (sint \<circ> snd) (take 4 ?seen) = [sint T * 1, sint T * 2, sint T * 6, sint T * 24]"
    if "4 \<le> length ?seen" and range: "- (2 ^ 63) \<le> sint T * 24" "sint T * 24 < 2 ^ 63"
  proof -
    have "sint (T * of_nat 1) = sint T * int 1" "sint (T * of_nat 2) = sint T * int 2"
      "sint (T * of_nat 6) = sint T * int 6" "sint (T * of_nat 24) = sint T * int 24"
      by (rule sint_times_below [OF range], simp)+
    then have s: "sint (T * 1) = sint T * 1" "sint (T * 2) = sint T * 2"
      "sint (T * 6) = sint T * 6" "sint (T * 24) = sint T * 24"
      by simp_all
    have "map (sint \<circ> snd) (take 4 ?seen) = map sint (map snd (take 4 ?seen))" by simp
    also have "\<dots> = map sint [T * 1, T * 2, T * 6, T * 24]"
      by (simp only: four [OF that(1)])
    also have "\<dots> = [sint T * 1, sint T * 2, sint T * 6, sint T * 24]"
      using s by simp
    finally show ?thesis .
  qed
  have allfail: "length ?seen = nat n"
    if "\<forall>e a t. fst (func e a t) \<noteq> Inr () \<and> fst (func e a t) \<noteq> Inl DispatcherShutdown"
  proof -
    from that have "\<forall>e a t. fst (?g e a t) \<noteq> Inr () \<and> fst (?g e a t) \<noteq> Inl DispatcherShutdown"
      by (simp add: recording_result)
    from do_until_all_fail [of ?g, OF recording_notes this,
        of ?st "Inl RequestTimeoutException" "(env, [])" "[]"]
    show ?thesis unfolding run_eq by (simp add: configured_def)
  qed
  have upd: "configured n r' T = (configured n r T)\<lparr>rate := r'\<rparr>"
    by (simp add: configured_def)
  have "run ?g (configured n r' T) (env, []) =
      do_until ?g ((configured n r T)\<lparr>rate := r'\<rparr>) (Inl RequestTimeoutException) (env, []) []"
    unfolding upd by (simp add: run_def configured_def)
  then have rate_free: "snd (run ?g (configured n r' T) (env, [])) = snd (run ?g ?st (env, []))"
    unfolding run_eq by (simp add: do_until_rate)
  from sched four exact allfail rate_free show ?thesis by blast
qed

text \<open>
  With a start timeout of 10 ms on a clock that ticks in nanoseconds and a function
  that is always refused, four retries give the function 10, 20, 60 and 240 ms.
\<close>

theorem run_timeout_schedule_witness:
  "(4::int) \<le> 4 \<and>
   snd (env_of (run (recording refused) (configured 4 3 10000000) ((), []))) =
     [(3, 10000000), (2, 20000000), (1, 60000000), (0, 240000000)] \<and>
   - (2 ^ 63) \<le> sint (10000000 :: Duration) * 24 \<and> sint (10000000 :: Duration) * 24 < 2 ^ 63 \<and>
   map (sint \<circ> snd)
     (take 4 (snd (env_of (run (recording refused) (configured 4 3 10000000) ((), []))))) =
     [10000000, 20000000, 60000000, 240000000]"
proof -
  let ?T = "10000000 :: Duration"
  let ?seen = "snd (env_of (run (recording refused) (configured 4 3 ?T) ((), [])))"
  have h: "(4::int) \<le> 4" by simp
  have never: "\<forall>e a t. fst (refused e a t) \<noteq> Inr () \<and> fst (refused e a t) \<noteq> Inl DispatcherShutdown"
    by (simp add: refused_def)
  have range: "- (2 ^ 63) \<le> sint ?T * 24" "sint ?T * 24 < 2 ^ 63" by simp_all
  note t = run_timeout_schedule [OF h, of refused 3 ?T "()" 3]
  from t never have len: "length ?seen = 4" by simp
  from t have "\<forall>k<length ?seen. snd (?seen ! k) = ?T * of_nat (fact (Suc k)) \<and>
      fst (?seen ! k) = 4 - int (Suc k)"
    by (elim conjE)
  moreover have "0 < length ?seen" "1 < length ?seen" "2 < length ?seen" "3 < length ?seen"
    by (simp_all add: len)
  ultimately
  have "snd (?seen ! 0) = ?T * of_nat (fact (Suc 0)) \<and> fst (?seen ! 0) = 4 - int (Suc 0)"
    "snd (?seen ! 1) = ?T * of_nat (fact (Suc 1)) \<and> fst (?seen ! 1) = 4 - int (Suc 1)"
    "snd (?seen ! 2) = ?T * of_nat (fact (Suc 2)) \<and> fst (?seen ! 2) = 4 - int (Suc 2)"
    "snd (?seen ! 3) = ?T * of_nat (fact (Suc 3)) \<and> fst (?seen ! 3) = 4 - int (Suc 3)"
    by blast+
  then have "?seen ! 0 = (3, 10000000)" "?seen ! 1 = (2, 20000000)" "?seen ! 2 = (1, 60000000)"
    "?seen ! 3 = (0, 240000000)"
    unfolding fact_small by (simp_all add: prod_eq_iff)
  with len have seen: "?seen = [(3, 10000000), (2, 20000000), (1, 60000000), (0, 240000000)]"
    by (intro nth_equalityI) (auto simp: less_Suc_eq numeral_2_eq_2 numeral_3_eq_3 eval_nat_numeral)
  from t len range have "map (sint \<circ> snd) (take 4 ?seen) =
      [sint ?T * 1, sint ?T * 2, sint ?T * 6, sint ?T * 24]"
    by simp
  then have "map (sint \<circ> snd) (take 4 ?seen) = [10000000, 20000000, 60000000, 240000000]"
    by simp
  with h seen range show ?thesis by simp
qed

text \<open>
  Claim C3 as stated fails for a start timeout whose products leave the 64-bit
  range: with \<open>2 ^ 62\<close> ticks the second call receives \<open>- (2 ^ 63)\<close> ticks where
  \<open>startTimeout \<cdot> 2\<close> is \<open>2 ^ 63\<close>, and the fourth receives 0.
\<close>

theorem run_timeout_schedule_counterexample:
  "map (sint \<circ> snd) (snd (env_of (run (recording refused) (configured 4 3 hugeTimeout) ((), [])))) =
     [4611686018427387904, - 9223372036854775808, - 9223372036854775808, 0] \<and>
   sint hugeTimeout * 2 = 9223372036854775808 \<and>
   sint hugeTimeout * 24 = 110680464442257309696"
  by code_simp

lemma attempt_used: "used (fst (attempt func st env)) = used st"
  by (simp add: attempt_def Let_def split: sum.split exn.split)

lemma do_until_used: "used (fst (do_until func st res env calls)) = used st"
proof (induction func st res env calls rule: do_until.induct)
  case (1 func st result env calls)
  show ?case
  proof (cases "success st \<or> retries st \<le> try_no st")
    case True
    then show ?thesis by (simp add: do_until.simps)
  next
    case False
    with "1.IH" show ?thesis by (subst do_until.simps) (simp add: attempt_used)
  qed
qed

lemma run_used: "used (fst (run func st env)) = used st"
  by (simp add: run_def do_until_used)

text \<open>
  Claim C4. A second \<open>run\<close> on the same strategy is meant to fail with
  \<open>DuplicateExecutionException\<close> without calling the function. Evaluated on the
  discovery configuration with a function that succeeds at once: the first run
  leaves \<open>used\<close> false, and the second run makes no call but resolves to
  \<open>RequestTimeoutException\<close>, the loop's initial result.
\<close>

theorem run_twice_evaluated:
  "run (\<lambda>e a t. (Inr (), e)) (configured 10 3 10) () =
     (\<lparr>retries = 10, try_no = 1, rate = 3, currentTimeout = 10, success = True, used = False\<rparr>,
      Inr (), (), [(9, 10)]) \<and>
   run (\<lambda>e a t. (Inr (), e))
     \<lparr>retries = 10, try_no = 1, rate = 3, currentTimeout = 10, success = True, used = False\<rparr> () =
     (\<lparr>retries = 10, try_no = 1, rate = 3, currentTimeout = 10, success = True, used = False\<rparr>,
      Inl RequestTimeoutException, (), [])"
  by (simp add: run_def configured_def do_until.simps attempt_def)

section \<open>Properties of the benchmark client\<close>

lemma unat_ucast_u32 [simp]: "unat (ucast (w :: u32) :: u64) = unat w"
proof -
  have "unat w < 2 ^ 32" using unsigned_less [of w] by simp
  then have "unat w < 2 ^ 64" by (rule less_le_trans) simp
  then show ?thesis by (simp add: unsigned_ucast_eq take_bit_nat_eq_self)
qed

lemma unat_u32_bound: "unat (w :: u32) < 2 ^ 32"
  using unsigned_less [of w] by simp

lemma unat_u64_bound: "unat (w :: u64) < 2 ^ 64"
  using unsigned_less [of w] by simp

lemma unat_succ_below:
  fixes reqid bound :: u64
  assumes "reqid < bound"
  shows "unat (reqid + 1) = Suc (unat reqid)"
proof -
  from assms have "unat reqid < unat bound" by (simp add: word_less_nat_alt)
  with unat_u64_bound [of bound] show ?thesis by (simp add: unat_word_ariths)
qed

lemma ring_index_below:
  fixes reqid :: u64 and pc :: u32
  assumes "pc \<noteq> 0"
  shows "unat (reqid mod ucast pc) = unat reqid mod unat pc"
    and "unat (reqid mod ucast pc) < unat pc"
proof -
  show eq: "unat (reqid mod ucast pc) = unat reqid mod unat pc"
    by (simp add: unat_mod)
  from assms have "0 < unat pc" by (simp add: unat_gt_0)
  then show "unat (reqid mod ucast pc) < unat pc" by (simp add: eq)
qed

lemma sample_loop_done: "\<not> reqid < bound \<Longrightarrow> sample_loop now pc ring reqid bound acc = Inr acc"
  by (simp add: sample_loop.simps)

lemma sample_loop_eq:
  assumes "pc \<noteq> 0" and "unat pc \<le> length ring"
  shows "sample_loop now pc ring reqid bound acc =
     Inr (acc @ map (\<lambda>r. (r mod unat pc, now - ring ! (r mod unat pc)))
                  [unat reqid ..< unat bound])"
  using assms
proof (induction now pc ring reqid bound acc rule: sample_loop.induct)
  case (1 now pc ring reqid bound acc)
  show ?case
  proof (cases "reqid < bound")
    case False
    then have "unat bound \<le> unat reqid" by (simp add: word_less_nat_alt)
    with False show ?thesis by (simp add: sample_loop_done)
  next
    case True
    then have lt: "unat reqid < unat bound" by (simp add: word_less_nat_alt)
    have idx: "unat (reqid mod ucast pc) = unat reqid mod unat pc"
      "unat (reqid mod ucast pc) < length ring"
      using ring_index_below [OF "1.prems"(1), of reqid] "1.prems"(2) by simp_all
    have "sample_loop now pc ring reqid bound acc =
        sample_loop now pc ring (reqid + 1) bound
          (acc @ [(unat (reqid mod ucast pc), now - ring ! unat (reqid mod ucast pc))])"
      using True "1.prems"(1) idx(2) by (subst sample_loop.simps) simp
    also have "\<dots> = Inr ((acc @ [(unat (reqid mod ucast pc), now - ring ! unat (reqid mod ucast pc))]) @
        map (\<lambda>r. (r mod unat pc, now - ring ! (r mod unat pc))) [unat (reqid + 1) ..< unat bound])"
      using True "1.prems" idx(2) by (intro "1.IH") simp_all
    also have "\<dots> = Inr (acc @ map (\<lambda>r. (r mod unat pc, now - ring ! (r mod unat pc)))
                  [unat reqid ..< unat bound])"
      using lt by (simp add: unat_succ_below [OF True] idx(1) upt_conv_Cons)
    finally show ?thesis .
  qed
qed

subsection \<open>The ACK observer, case by case\<close>

lemma ackObserver_dropped:
  assumes "\<not> accepted c a"
  shows "\<exists>w. w \<noteq> [] \<and> ChecksumMismatch \<notin> set w \<and>
    ackObserver now (Some a) c = Inr (c, \<lparr>warnings = w, ringReads = [], promiseSet = False\<rparr>)"
  using assms by (auto simp: ackObserver_def accepted_def Let_def not_le)

lemma ackObserver_accepted:
  assumes "accepted c a"
  shows "ackObserver now (Some a) c =
    (case sample_loop now (pipelineCount (config (session c))) (requestIssueTimes c)
            (totalCount (session c) - unackedCount (session c)) (ack_totalCount a) [] of
       Inl e \<Rightarrow> Inl e
     | Inr samples \<Rightarrow>
         Inr (c\<lparr>requestLatency := requestLatency c @ map snd samples,
                session := (session c)\<lparr>unackedCount := totalCount (session c) - ack_totalCount a,
                                        unackedSize := totalSize (session c) - ack_totalSize a\<rparr>,
                haveSendPromise := False\<rparr>,
              \<lparr>warnings = (if ack_totalCount a \<le> lastAckedTotal c then [TooOld] else []) @
                           (if ack_checksum a \<noteq> (ack_totalCount a * (ack_totalCount a + 1)) div 2
                            then [ChecksumMismatch] else []),
               ringReads = map fst samples, promiseSet = haveSendPromise c\<rparr>))"
  using assms by (auto simp: ackObserver_def accepted_def Let_def)

lemma wellformed_samples:
  assumes "wellformed c" and "accepted c a"
  shows "sample_loop now (pipelineCount (config (session c))) (requestIssueTimes c)
            (totalCount (session c) - unackedCount (session c)) (ack_totalCount a) [] =
         Inr (map (\<lambda>r. (r mod unat (pipelineCount (config (session c))),
                        now - requestIssueTimes c ! (r mod unat (pipelineCount (config (session c))))))
                [unat (totalCount (session c) - unackedCount (session c)) ..< unat (ack_totalCount a)])"
proof (cases "pipelineCount (config (session c)) = 0")
  case False
  with assms(1) show ?thesis by (simp add: sample_loop_eq wellformed_def)
next
  case True
  with assms have "ack_totalCount a = 0"
    by (simp add: wellformed_def accepted_def)
  then show ?thesis by (simp add: sample_loop_done)
qed

text \<open>
  Claim C2. For an ack that passes the session-id, count and size checks, with the
  vector as \<open>_startSession\<close> sized it, the observer returns, and afterwards the
  acknowledged totals of the session are the ack's:
  \<open>totalCount - unackedCount = ack.totalCount\<close> and
  \<open>totalSize - unackedSize = ack.totalSize\<close>, with \<open>totalCount\<close> and \<open>totalSize\<close> as
  they were.
\<close>

theorem accepted_ack_accounting:
  assumes "wellformed c" and "accepted c a"
  shows "\<exists>c' eff. ackObserver now (Some a) c = Inr (c', eff) \<and>
     totalCount (session c') = totalCount (session c) \<and>
     totalSize (session c') = totalSize (session c) \<and>
     totalCount (session c') - unackedCount (session c') = ack_totalCount a \<and>
     totalSize (session c') - unackedSize (session c') = ack_totalSize a"
  unfolding ackObserver_accepted [OF assms(2)] wellformed_samples [OF assms] by simp

text \<open>
  Claim C9. An ACK message without payload is ignored: the client is unchanged (so
  no latency sample is added and the promise flag stays), nothing is logged, no
  slot is read and the sender's promise is not fulfilled.
\<close>

theorem null_payload_ignored:
  "ackObserver now None c = Inr (c, \<lparr>warnings = [], ringReads = [], promiseSet = False\<rparr>)"
  by (simp add: ackObserver_def)

text \<open>
  Claim C10. For an ack that reaches the latency loop, with the vector as
  \<open>_startSession\<close> sized it, the observer returns and has read exactly
  \<open>ack.totalCount - (totalCount - unackedCount)\<close> slots (none when that is not
  positive), one histogram sample per slot read; the slots are
  \<open>reqid mod pipelineCount\<close> for the request ids from \<open>totalCount - unackedCount\<close> up
  to \<open>ack.totalCount\<close>, each below \<open>pipelineCount\<close>.
\<close>

theorem latency_samples:
  assumes "wellformed c" and "accepted c a"
  shows "\<exists>c' eff. ackObserver now (Some a) c = Inr (c', eff) \<and>
     length (ringReads eff) =
       unat (ack_totalCount a) - unat (totalCount (session c) - unackedCount (session c)) \<and>
     requestLatency c' =
       requestLatency c @ map (\<lambda>i. now - requestIssueTimes c ! i) (ringReads eff) \<and>
     ringReads eff =
       map (\<lambda>reqid. reqid mod unat (pipelineCount (config (session c))))
         [unat (totalCount (session c) - unackedCount (session c)) ..< unat (ack_totalCount a)] \<and>
     (\<forall>i \<in> set (ringReads eff). i < unat (pipelineCount (config (session c)))) \<and>
     (ack_totalCount a \<le> totalCount (session c) - unackedCount (session c) \<longrightarrow>
        ringReads eff = [] \<and> requestLatency c' = requestLatency c)"
proof -
  let ?pc = "unat (pipelineCount (config (session c)))"
  let ?ids = "[unat (totalCount (session c) - unackedCount (session c)) ..< unat (ack_totalCount a)]"
  have in_range: "r mod ?pc < ?pc" if "r \<in> set ?ids" for r
  proof (cases "pipelineCount (config (session c)) = 0")
    case False
    then have "0 < ?pc" by (simp add: unat_gt_0)
    then show ?thesis by simp
  next
    case True
    with assms have "ack_totalCount a = 0" by (simp add: wellformed_def accepted_def)
    with that show ?thesis by simp
  qed
  have empty: "?ids = []"
    if "ack_totalCount a \<le> totalCount (session c) - unackedCount (session c)"
    using that by (simp add: word_le_nat_alt)
  show ?thesis
    unfolding ackObserver_accepted [OF assms(2)] wellformed_samples [OF assms]
    using in_range empty by (auto simp: comp_def)
qed

lemma accepted_ack_returns:
  assumes "wellformed c" and "accepted c a"
  shows "\<exists>c' eff. ackObserver now (Some a) c = Inr (c', eff)"
  unfolding ackObserver_accepted [OF assms(2)] wellformed_samples [OF assms] by simp


lemma accepted_checksum: "accepted c (a\<lparr>ack_checksum := k\<rparr>) = accepted c a"
  by (simp add: accepted_def)

text \<open>
  Claim C6, as the code has it. With the vector as \<open>_startSession\<close> sized it, the
  observer returns on every ack, and the checksum decides one thing only: the
  mismatch warning is logged exactly when the ack has passed the session-id, count
  and size checks and its checksum differs from
  \<open>totalCount \<cdot> (totalCount + 1) / 2\<close> in 64-bit arithmetic. The same ack with any
  other checksum leaves the same client, reads the same slots, fulfils the promise
  alike and logs the same warnings apart from that one; so a mismatching ack that
  passes the three checks gets the credit update of the matching one.
\<close>

theorem checksum_mismatch_only_warns:
  assumes "wellformed c"
  shows "\<exists>c' eff. ackObserver now (Some a) c = Inr (c', eff) \<and>
     (ChecksumMismatch \<in> set (warnings eff) \<longleftrightarrow>
        accepted c a \<and>
        ack_checksum a \<noteq> (ack_totalCount a * (ack_totalCount a + 1)) div 2) \<and>
     (\<forall>k. \<exists>eff'. ackObserver now (Some (a\<lparr>ack_checksum := k\<rparr>)) c = Inr (c', eff') \<and>
        ringReads eff' = ringReads eff \<and> promiseSet eff' = promiseSet eff \<and>
        removeAll ChecksumMismatch (warnings eff') =
          removeAll ChecksumMismatch (warnings eff)) \<and>
     (accepted c a \<longrightarrow>
        unackedCount (session c') = totalCount (session c) - ack_totalCount a \<and>
        unackedSize (session c') = totalSize (session c) - ack_totalSize a)"
proof (cases "accepted c a")
  case True
  have acc: "accepted c (a\<lparr>ack_checksum := k\<rparr>)" for k
    using True by (simp add: accepted_checksum)
  show ?thesis
    unfolding ackObserver_accepted [OF True] ackObserver_accepted [OF acc]
      wellformed_samples [OF assms True] wellformed_samples [OF assms acc]
    using True by simp
next
  case False
  then have rej: "\<not> accepted c (a\<lparr>ack_checksum := k\<rparr>)" for k
    by (simp add: accepted_checksum)
  have same: "ackObserver now (Some (a\<lparr>ack_checksum := k\<rparr>)) c = ackObserver now (Some a) c" for k
    using False by (auto simp: ackObserver_def accepted_def Let_def)
  from ackObserver_dropped [OF False, of now] obtain w where
    w: "ChecksumMismatch \<notin> set w"
      "ackObserver now (Some a) c = Inr (c, \<lparr>warnings = w, ringReads = [], promiseSet = False\<rparr>)"
    by blast
  show ?thesis unfolding same w(2) using w(1) False by simp
qed

subsection \<open>Invariants of the benchmark loop\<close>

lemma send_Inr:
  assumes "send now c = Inr c'"
  shows "pipelineCount (config (session c)) \<noteq> 0"
    and "16 < (ucast (responseSize (config (session c))) :: u64)"
    and "config (session c') = config (session c)"
    and "length (requestIssueTimes c') = length (requestIssueTimes c)"
    and "unackedCount (session c') = unackedCount (session c) + 1"
    and "unackedSize (session c') =
           unackedSize (session c) + ucast (responseSize (config (session c)))"
  using assms by (auto simp: send_def Let_def split: if_splits)

lemma send_returns:
  assumes "wellformed c" and "canSend c"
    and "16 < (ucast (responseSize (config (session c))) :: u64)"
  shows "\<exists>c'. send now c = Inr c'"
proof -
  from assms(2) have "pipelineCount (config (session c)) \<noteq> 0"
    by (auto simp: canSend_def)
  with assms(1,3) ring_index_below(2) [OF this, of "totalCount (session c) + 1"]
  show ?thesis by (simp add: send_def Let_def wellformed_def)
qed

text \<open>
  Claim C7, as the code has it. Acks are cumulative. In a client with the vector as
  \<open>_startSession\<close> sized it, with credit available and a request size above the
  16 bytes of the header (which \<open>send\<close> asserts), the send returns and raises the
  two counters by one request; then every ack whose totals are the totals after
  that send is processed and leaves nothing unacknowledged: both counters are
  zero, which is where they were before the send exactly when nothing was in
  flight then.
\<close>

theorem send_then_covering_ack:
  assumes "wellformed c" and "canSend c"
    and "16 < (ucast (responseSize (config (session c))) :: u64)"
  shows "\<exists>c1. send t1 c = Inr c1 \<and>
     unackedCount (session c1) = unackedCount (session c) + 1 \<and>
     unackedSize (session c1) =
       unackedSize (session c) + ucast (responseSize (config (session c))) \<and>
     (\<forall>a. ack_sessionID a = sessionID (session c1) \<and>
          ack_totalCount a = totalCount (session c1) \<and>
          ack_totalSize a = totalSize (session c1) \<longrightarrow>
        (\<exists>c2 eff. ackObserver t2 (Some a) c1 = Inr (c2, eff) \<and>
           unackedCount (session c2) = 0 \<and> unackedSize (session c2) = 0 \<and>
           (unackedCount (session c2) = unackedCount (session c) \<and>
            unackedSize (session c2) = unackedSize (session c) \<longleftrightarrow>
              unackedCount (session c) = 0 \<and> unackedSize (session c) = 0)))"
proof -
  from send_returns [OF assms, of t1] obtain c1 where c1: "send t1 c = Inr c1" by blast
  have wf1: "wellformed c1"
    using send_Inr(1,3,4) [OF c1] assms(1) by (simp add: wellformed_def)
  have covered: "\<exists>c2 eff. ackObserver t2 (Some a) c1 = Inr (c2, eff) \<and>
           unackedCount (session c2) = 0 \<and> unackedSize (session c2) = 0 \<and>
           (unackedCount (session c2) = unackedCount (session c) \<and>
            unackedSize (session c2) = unackedSize (session c) \<longleftrightarrow>
              unackedCount (session c) = 0 \<and> unackedSize (session c) = 0)"
    if a: "ack_sessionID a = sessionID (session c1) \<and>
          ack_totalCount a = totalCount (session c1) \<and>
          ack_totalSize a = totalSize (session c1)" for a
  proof -
    have acc: "accepted c1 a" using a by (simp add: accepted_def)
    show ?thesis
      unfolding ackObserver_accepted [OF acc] wellformed_samples [OF wf1 acc]
      using a by auto
  qed
  from c1 send_Inr(5,6) [OF c1] covered show ?thesis by blast
qed

lemma ackObserver_Inr:
  assumes "ackObserver now payload c = Inr (c', eff)"
  shows "config (session c') = config (session c)"
    and "requestIssueTimes c' = requestIssueTimes c"
    and "lastAckedTotal c' = lastAckedTotal c"
    and "totalCount (session c') = totalCount (session c)"
    and "totalSize (session c') = totalSize (session c)"
proof -
  have "config (session c') = config (session c) \<and>
      requestIssueTimes c' = requestIssueTimes c \<and>
      lastAckedTotal c' = lastAckedTotal c \<and>
      totalCount (session c') = totalCount (session c) \<and>
      totalSize (session c') = totalSize (session c)"
  proof (cases payload)
    case None
    with assms show ?thesis by (simp add: ackObserver_def)
  next
    case (Some a)
    show ?thesis
    proof (cases "accepted c a")
      case True
      with assms Some show ?thesis
        unfolding Some ackObserver_accepted [OF True] by (auto split: sum.splits)
    next
      case False
      from ackObserver_dropped [OF False, of now] assms Some show ?thesis by auto
    qed
  qed
  then show "config (session c') = config (session c)"
    and "requestIssueTimes c' = requestIssueTimes c"
    and "lastAckedTotal c' = lastAckedTotal c"
    and "totalCount (session c') = totalCount (session c)"
    and "totalSize (session c') = totalSize (session c)"
    by simp_all
qed

lemma step_config:
  assumes "step ev c = Inr c'"
  shows "config (session c') = config (session c)"
proof (cases ev)
  case (SenderRuns now)
  with assms show ?thesis
    by (auto simp: step_def loopBody_def send_Inr(3) split: if_splits)
next
  case (AckArrives now payload)
  with assms obtain eff where "ackObserver now payload c = Inr (c', eff)"
    by (cases "ackObserver now payload c") (auto simp: step_def)
  then show ?thesis by (rule ackObserver_Inr(1))
next
  case TimerFires
  with assms show ?thesis by (auto simp: step_def timerCallback_def)
qed

lemma step_lastAckedTotal:
  assumes "step ev c = Inr c'"
  shows "lastAckedTotal c' = lastAckedTotal c"
proof (cases ev)
  case (SenderRuns now)
  with assms show ?thesis
    by (auto simp: step_def loopBody_def send_def Let_def split: if_splits)
next
  case (AckArrives now payload)
  with assms obtain eff where "ackObserver now payload c = Inr (c', eff)"
    by (cases "ackObserver now payload c") (auto simp: step_def)
  then show ?thesis by (rule ackObserver_Inr(3))
next
  case TimerFires
  with assms show ?thesis by (auto simp: step_def timerCallback_def)
qed

lemma step_wellformed:
  assumes "wellformed c" and "step ev c = Inr c'"
  shows "wellformed c'"
proof (cases ev)
  case (SenderRuns now)
  show ?thesis
  proof (cases "\<not> (stopped c \<or> haveSendPromise c) \<and> canSend c")
    case True
    with assms(2) SenderRuns have s: "send now c = Inr c'"
      by (simp add: step_def loopBody_def)
    from send_Inr(1,3,4) [OF s] assms(1) show ?thesis by (simp add: wellformed_def)
  next
    case False
    with assms SenderRuns show ?thesis
      by (auto simp: step_def loopBody_def wellformed_def split: if_splits)
  qed
next
  case (AckArrives now payload)
  with assms(2) obtain eff where obs: "ackObserver now payload c = Inr (c', eff)"
    by (cases "ackObserver now payload c") (auto simp: step_def)
  show ?thesis
  proof (cases "pipelineCount (config (session c)) = 0")
    case False
    with ackObserver_Inr(1,2) [OF obs] assms(1) show ?thesis by (simp add: wellformed_def)
  next
    case True
    with assms(1) have zero: "totalCount (session c) = 0" "unackedCount (session c) = 0"
      by (simp_all add: wellformed_def)
    have "unackedCount (session c') = 0"
    proof (cases payload)
      case None
      with obs zero show ?thesis by (simp add: ackObserver_def)
    next
      case (Some a)
      show ?thesis
      proof (cases "accepted c a")
        case acc: True
        then have "ack_totalCount a = 0" using zero by (simp add: accepted_def)
        with obs zero show ?thesis
          unfolding Some ackObserver_accepted [OF acc] by (auto split: sum.splits)
      next
        case False
        from ackObserver_dropped [OF False, of now] obs Some zero show ?thesis by auto
      qed
    qed
    with ackObserver_Inr(1,2,4) [OF obs] assms(1) zero show ?thesis
      by (simp add: wellformed_def)
  qed
next
  case TimerFires
  with assms show ?thesis by (auto simp: step_def timerCallback_def wellformed_def)
qed

lemma benchStart_wellformed: "wellformed (benchStart cfg sid)"
  by (simp add: benchStart_def startSession_def Client_ctor_def wellformed_def)

lemma run_events_wellformed:
  "wellformed c \<Longrightarrow> run_events evs c = Inr c' \<Longrightarrow> wellformed c'"
proof (induction evs arbitrary: c)
  case Nil
  then show ?case by simp
next
  case (Cons ev evs)
  from Cons.prems(2) obtain c1 where "step ev c = Inr c1" "run_events evs c1 = Inr c'"
    by (auto split: sum.splits)
  with Cons.IH step_wellformed [OF Cons.prems(1)] show ?case by blast
qed

lemma reachable_wellformed:
  "run_events evs (benchStart cfg sid) = Inr c \<Longrightarrow> wellformed c"
  using run_events_wellformed [OF benchStart_wellformed] .

lemma reachable_ack_returns:
  assumes "run_events evs (benchStart cfg sid) = Inr c" and "accepted c a"
  shows "\<exists>c' eff. ackObserver now (Some a) c = Inr (c', eff)"
  using accepted_ack_returns [OF reachable_wellformed [OF assms(1)] assms(2)] .

lemma run_events_lastAckedTotal:
  "run_events evs c = Inr c' \<Longrightarrow> lastAckedTotal c' = lastAckedTotal c"
proof (induction evs arbitrary: c)
  case Nil
  then show ?case by simp
next
  case (Cons ev evs)
  from Cons.prems obtain c1 where "step ev c = Inr c1" "run_events evs c1 = Inr c'"
    by (auto split: sum.splits)
  with Cons.IH step_lastAckedTotal show ?case by fastforce
qed

lemma send_credit_bound:
  assumes "canSend c" and "send now c = Inr c'"
  shows "credit_bound c'"
proof -
  let ?cfg = "config (session c)"
  from assms(1) have cnt: "unat (unackedCount (session c)) < unat (pipelineCount ?cfg)"
    and sz: "unat (unackedSize (session c)) < unat (pipelineSize ?cfg)"
    by (simp_all add: canSend_def word_less_nat_alt)
  have "unat (unackedCount (session c)) + 1 < 2 ^ 64"
    using cnt unat_u32_bound [of "pipelineCount ?cfg"] by simp
  then have "unat (unackedCount (session c) + 1) = unat (unackedCount (session c)) + 1"
    by (simp add: unat_word_ariths)
  with cnt have a: "unackedCount (session c) + 1 \<le> ucast (pipelineCount ?cfg)"
    by (simp add: word_le_nat_alt)
  have "unat (unackedSize (session c)) + unat (responseSize ?cfg) < 2 ^ 64"
    using sz unat_u32_bound [of "pipelineSize ?cfg"] unat_u32_bound [of "responseSize ?cfg"]
    by simp
  then have "unat (unackedSize (session c) + ucast (responseSize ?cfg)) =
      unat (unackedSize (session c)) + unat (responseSize ?cfg)"
    by (simp add: unat_word_ariths)
  with sz have b: "unat (unackedSize (session c) + ucast (responseSize ?cfg)) \<le>
      unat (pipelineSize ?cfg) + unat (responseSize ?cfg) - 1"
    by simp
  from a b send_Inr(3,5,6) [OF assms(2)] show ?thesis by (simp add: credit_bound_def)
qed

lemma step_credit_bound:
  assumes "credit_bound c" and "advances ev c" and "step ev c = Inr c'"
  shows "credit_bound c'"
proof (cases ev)
  case (SenderRuns now)
  show ?thesis
  proof (cases "\<not> (stopped c \<or> haveSendPromise c) \<and> canSend c")
    case True
    with assms(3) SenderRuns have "send now c = Inr c'"
      by (simp add: step_def loopBody_def)
    with True show ?thesis by (blast intro: send_credit_bound)
  next
    case False
    with assms SenderRuns show ?thesis
      by (auto simp: step_def loopBody_def credit_bound_def split: if_splits)
  qed
next
  case (AckArrives now payload)
  with assms(3) obtain eff where obs: "ackObserver now payload c = Inr (c', eff)"
    by (cases "ackObserver now payload c") (auto simp: step_def)
  show ?thesis
  proof (cases payload)
    case None
    with obs assms(1) show ?thesis by (simp add: ackObserver_def)
  next
    case (Some a)
    show ?thesis
    proof (cases "accepted c a")
      case False
      from ackObserver_dropped [OF False, of now] obs Some assms(1) show ?thesis by auto
    next
      case True
      with assms(2) AckArrives Some
      have adv: "totalCount (session c) - ack_totalCount a \<le> unackedCount (session c)"
        "totalSize (session c) - ack_totalSize a \<le> unackedSize (session c)"
        by (simp_all add: advances_def)
      from obs have c': "unackedCount (session c') = totalCount (session c) - ack_totalCount a"
        "unackedSize (session c') = totalSize (session c) - ack_totalSize a"
        unfolding Some ackObserver_accepted [OF True] by (auto split: sum.splits)
      from adv(2) have "unat (totalSize (session c) - ack_totalSize a) \<le> unat (unackedSize (session c))"
        by (simp add: word_le_nat_alt)
      with adv(1) assms(1) c' ackObserver_Inr(1) [OF obs] show ?thesis
        by (auto simp: credit_bound_def)
    qed
  qed
next
  case TimerFires
  with assms show ?thesis by (auto simp: step_def timerCallback_def credit_bound_def)
qed

lemma run_events_credit_bound:
  "credit_bound c \<Longrightarrow> acks_advance evs c \<Longrightarrow> run_events evs c = Inr c' \<Longrightarrow>
     credit_bound c' \<and> config (session c') = config (session c)"
proof (induction evs arbitrary: c)
  case Nil
  then show ?case by simp
next
  case (Cons ev evs)
  from Cons.prems(3) obtain c1 where c1: "step ev c = Inr c1" "run_events evs c1 = Inr c'"
    by (auto split: sum.splits)
  from Cons.prems(2) c1(1) have adv: "advances ev c" "acks_advance evs c1" by simp_all
  from step_credit_bound [OF Cons.prems(1) adv(1) c1(1)] have "credit_bound c1" .
  from Cons.IH [OF this adv(2) c1(2)] step_config [OF c1(1)] show ?case by simp
qed

text \<open>
  Claim C1, as the code has it. From the zeroed state at the start of the
  benchmark, after any events (the sender running, acks arriving, the timer
  firing) in which no accepted ack leaves more unacknowledged than there was
  before it, \<open>unackedCount \<le> pipelineCount\<close> holds and \<open>unackedSize\<close> stays below
  \<open>pipelineSize + responseSize\<close>.
\<close>

theorem credit_bounds:
  assumes "acks_advance evs (benchStart cfg sid)"
    and "run_events evs (benchStart cfg sid) = Inr c"
  shows "unackedCount (session c) \<le> ucast (pipelineCount cfg) \<and>
         unat (unackedSize (session c)) \<le> unat (pipelineSize cfg) + unat (responseSize cfg) - 1"
proof -
  have start: "credit_bound (benchStart cfg sid)"
    by (simp add: credit_bound_def benchStart_def startSession_def Client_ctor_def)
  have "config (session (benchStart cfg sid)) = cfg"
    by (simp add: benchStart_def startSession_def Client_ctor_def)
  with run_events_credit_bound [OF start assms] have "credit_bound c" "config (session c) = cfg"
    by simp_all
  then show ?thesis unfolding credit_bound_def by simp
qed

subsection \<open>The small session, evaluated\<close>

lemma oneSent_reached: "run_events [SenderRuns 100] (benchStart exampleConfig 7) = Inr oneSent"
  by code_simp

lemma twoSent_reached:
  "run_events [SenderRuns 100, SenderRuns 200] (benchStart exampleConfig 7) = Inr twoSent"
  by code_simp

theorem credit_bounds_witness:
  "acks_advance [SenderRuns 100, AckArrives 150 (Some ackOne)] (benchStart exampleConfig 7) \<and>
   run_events [SenderRuns 100, AckArrives 150 (Some ackOne)] (benchStart exampleConfig 7) =
     Inr oneAcked \<and>
   unackedCount (session oneAcked) \<le> ucast (pipelineCount exampleConfig) \<and>
   unat (unackedSize (session oneAcked)) \<le>
     unat (pipelineSize exampleConfig) + unat (responseSize exampleConfig) - 1"
proof -
  have h1: "acks_advance [SenderRuns 100, AckArrives 150 (Some ackOne)]
      (benchStart exampleConfig 7)"
    by code_simp
  have h2: "run_events [SenderRuns 100, AckArrives 150 (Some ackOne)]
      (benchStart exampleConfig 7) = Inr oneAcked"
    by code_simp
  from credit_bounds [OF h1 h2] h1 h2 show ?thesis by blast
qed

text \<open>
  Claim C1 as stated fails twice. A request larger than the byte credit that is
  left is still sent: one send takes \<open>unackedSize\<close> to 1048577 with a
  \<open>pipelineSize\<close> of 1048576. And an ack that acknowledges less than an earlier one
  is accepted: with a \<open>pipelineCount\<close> of 1, an ack for nothing after two
  acknowledged requests sets \<open>unackedCount\<close> to 2.
\<close>

theorem credit_bounds_counterexample:
  "run_events [SenderRuns 5] (benchStart overshootConfig 7) = Inr overshootState \<and>
   \<not> unackedSize (session overshootState) \<le>
       ucast (pipelineSize (config (session overshootState))) \<and>
   run_events staleEvents (benchStart staleConfig 7) = Inr staleState \<and>
   \<not> unackedCount (session staleState) \<le>
       ucast (pipelineCount (config (session staleState)))"
  by code_simp

theorem accepted_ack_accounting_witness:
  "wellformed oneSent \<and> accepted oneSent ackOne \<and>
   ackObserver 150 (Some ackOne) oneSent =
     Inr (oneAcked, \<lparr>warnings = [], ringReads = [0], promiseSet = False\<rparr>) \<and>
   totalCount (session oneAcked) = totalCount (session oneSent) \<and>
   totalSize (session oneAcked) = totalSize (session oneSent) \<and>
   totalCount (session oneAcked) - unackedCount (session oneAcked) = ack_totalCount ackOne \<and>
   totalSize (session oneAcked) - unackedSize (session oneAcked) = ack_totalSize ackOne"
proof -
  have h0: "wellformed oneSent" by code_simp
  have h1: "accepted oneSent ackOne" by code_simp
  have h2: "ackObserver 150 (Some ackOne) oneSent =
     Inr (oneAcked, \<lparr>warnings = [], ringReads = [0], promiseSet = False\<rparr>)"
    by code_simp
  from accepted_ack_accounting [OF h0 h1, of 150] obtain c' eff where
    r: "ackObserver 150 (Some ackOne) oneSent = Inr (c', eff)"
      "totalCount (session c') = totalCount (session oneSent)"
      "totalSize (session c') = totalSize (session oneSent)"
      "totalCount (session c') - unackedCount (session c') = ack_totalCount ackOne"
      "totalSize (session c') - unackedSize (session c') = ack_totalSize ackOne"
    by blast
  from r(1) h2 have "c' = oneAcked" by simp
  with r h0 h1 h2 show ?thesis by simp
qed

text \<open>
  Claim C5. \<open>_lastAckedTotal\<close> is meant to be the largest \<open>totalCount\<close> acknowledged
  so far. Evaluated on one send and its ack: the ack's \<open>totalCount\<close> is 1 and is
  accepted (the credit is back to zero), and \<open>lastAckedTotal\<close> is still 0.
\<close>

theorem lastAckedTotal_evaluated:
  "run_events [SenderRuns 100, AckArrives 150 (Some ackOne)] (benchStart exampleConfig 7) =
     Inr oneAcked \<and>
   ack_totalCount ackOne = 1 \<and> unackedCount (session oneAcked) = 0 \<and>
   lastAckedTotal oneAcked = 0"
  by code_simp

text \<open>
  Claim C6 as stated fails: an ack with checksum 99 for \<open>totalCount = 1\<close> (the
  triangular number is 1) passes the three checks and is processed like the good
  one, with a warning.
\<close>

theorem checksum_counterexample:
  "accepted oneSent ackOneBad \<and>
   ack_checksum ackOneBad \<noteq> (ack_totalCount ackOneBad * (ack_totalCount ackOneBad + 1)) div 2 \<and>
   ackObserver 150 (Some ackOneBad) oneSent =
     Inr (oneAcked, \<lparr>warnings = [ChecksumMismatch], ringReads = [0], promiseSet = False\<rparr>) \<and>
   unackedCount (session oneSent) = 1 \<and> unackedCount (session oneAcked) = 0"
  by code_simp

theorem checksum_mismatch_only_warns_witness:
  "wellformed twoSent \<and> accepted twoSent ackTwoBad \<and>
   ack_checksum ackTwoBad \<noteq> (ack_totalCount ackTwoBad * (ack_totalCount ackTwoBad + 1)) div 2 \<and>
   ackObserver 250 (Some ackTwoBad) twoSent =
     Inr (twoAcked, \<lparr>warnings = [ChecksumMismatch], ringReads = [0, 1], promiseSet = False\<rparr>) \<and>
   (\<exists>eff'. ackObserver 250 (Some (ackTwoBad\<lparr>ack_checksum := 3\<rparr>)) twoSent = Inr (twoAcked, eff') \<and>
      ringReads eff' = [0, 1] \<and> promiseSet eff' = False \<and>
      removeAll ChecksumMismatch (warnings eff') = []) \<and>
   unackedCount (session twoAcked) = totalCount (session twoSent) - ack_totalCount ackTwoBad \<and>
   unackedSize (session twoAcked) = totalSize (session twoSent) - ack_totalSize ackTwoBad"
proof -
  have h0: "wellformed twoSent" by code_simp
  have h1: "accepted twoSent ackTwoBad" by code_simp
  have h2: "ack_checksum ackTwoBad \<noteq>
      (ack_totalCount ackTwoBad * (ack_totalCount ackTwoBad + 1)) div 2"
    by code_simp
  have h3: "ackObserver 250 (Some ackTwoBad) twoSent =
     Inr (twoAcked, \<lparr>warnings = [ChecksumMismatch], ringReads = [0, 1], promiseSet = False\<rparr>)"
    by code_simp
  from checksum_mismatch_only_warns [OF h0, of 250 ackTwoBad] obtain c' eff where
    r: "ackObserver 250 (Some ackTwoBad) twoSent = Inr (c', eff)"
      "\<forall>k. \<exists>eff'. ackObserver 250 (Some (ackTwoBad\<lparr>ack_checksum := k\<rparr>)) twoSent = Inr (c', eff') \<and>
        ringReads eff' = ringReads eff \<and> promiseSet eff' = promiseSet eff \<and>
        removeAll ChecksumMismatch (warnings eff') = removeAll ChecksumMismatch (warnings eff)"
      "accepted twoSent ackTwoBad \<longrightarrow>
        unackedCount (session c') = totalCount (session twoSent) - ack_totalCount ackTwoBad \<and>
        unackedSize (session c') = totalSize (session twoSent) - ack_totalSize ackTwoBad"
    by blast
  from r(1) h3 have eq: "c' = twoAcked"
    "eff = \<lparr>warnings = [ChecksumMismatch], ringReads = [0, 1], promiseSet = False\<rparr>"
    by simp_all
  from r(2) obtain eff' where
    "ackObserver 250 (Some (ackTwoBad\<lparr>ack_checksum := 3\<rparr>)) twoSent = Inr (c', eff')"
    "ringReads eff' = ringReads eff" "promiseSet eff' = promiseSet eff"
    "removeAll ChecksumMismatch (warnings eff') = removeAll ChecksumMismatch (warnings eff)"
    by blast
  then have other: "\<exists>eff'. ackObserver 250 (Some (ackTwoBad\<lparr>ack_checksum := 3\<rparr>)) twoSent =
      Inr (twoAcked, eff') \<and>
      ringReads eff' = [0, 1] \<and> promiseSet eff' = False \<and>
      removeAll ChecksumMismatch (warnings eff') = []"
    unfolding eq by simp
  from r(3) h1 have "unackedCount (session twoAcked) =
      totalCount (session twoSent) - ack_totalCount ackTwoBad"
    "unackedSize (session twoAcked) = totalSize (session twoSent) - ack_totalSize ackTwoBad"
    unfolding eq by simp_all
  with h0 h1 h2 h3 other show ?thesis by blast
qed

text \<open>
  Claim C7 as stated fails when something is in flight before the send: from
  \<open>oneSent\<close> (one request unacknowledged, credit for one more) a send and an ack
  with the totals after it leave \<open>unackedCount\<close> at 0, not at 1.
\<close>

theorem covering_ack_counterexample:
  "canSend oneSent \<and> send 200 oneSent = Inr twoSent \<and>
   accepted twoSent ackTwo \<and>
   ack_totalCount ackTwo = totalCount (session twoSent) \<and>
   ack_totalSize ackTwo = totalSize (session twoSent) \<and>
   ackObserver 250 (Some ackTwo) twoSent =
     Inr (twoAcked, \<lparr>warnings = [], ringReads = [0, 1], promiseSet = False\<rparr>) \<and>
   unackedCount (session oneSent) = 1 \<and> unackedCount (session twoAcked) = 0 \<and>
   unackedSize (session oneSent) = 512 \<and> unackedSize (session twoAcked) = 0"
  by code_simp

theorem send_then_covering_ack_witness:
  "wellformed (benchStart exampleConfig 7) \<and> canSend (benchStart exampleConfig 7) \<and>
   16 < (ucast (responseSize (config (session (benchStart exampleConfig 7)))) :: u64) \<and>
   send 100 (benchStart exampleConfig 7) = Inr oneSent \<and>
   ack_sessionID ackOne = sessionID (session oneSent) \<and>
   ack_totalCount ackOne = totalCount (session oneSent) \<and>
   ack_totalSize ackOne = totalSize (session oneSent) \<and>
   ackObserver 150 (Some ackOne) oneSent =
     Inr (oneAcked, \<lparr>warnings = [], ringReads = [0], promiseSet = False\<rparr>) \<and>
   unackedCount (session oneAcked) = 0 \<and> unackedSize (session oneAcked) = 0 \<and>
   unackedCount (session oneAcked) = unackedCount (session (benchStart exampleConfig 7)) \<and>
   unackedSize (session oneAcked) = unackedSize (session (benchStart exampleConfig 7))"
proof -
  let ?c = "benchStart exampleConfig 7"
  have h0: "wellformed ?c" by (rule benchStart_wellformed)
  have h1: "canSend ?c" by code_simp
  have h2: "16 < (ucast (responseSize (config (session ?c))) :: u64)" by code_simp
  have h3: "send 100 ?c = Inr oneSent" by code_simp
  have h4: "ack_sessionID ackOne = sessionID (session oneSent) \<and>
      ack_totalCount ackOne = totalCount (session oneSent) \<and>
      ack_totalSize ackOne = totalSize (session oneSent)"
    by code_simp
  have h5: "ackObserver 150 (Some ackOne) oneSent =
     Inr (oneAcked, \<lparr>warnings = [], ringReads = [0], promiseSet = False\<rparr>)"
    by code_simp
  have z: "unackedCount (session ?c) = 0" "unackedSize (session ?c) = 0"
    by (simp_all add: benchStart_def startSession_def Client_ctor_def)
  from send_then_covering_ack [OF h0 h1 h2, of 100 150] obtain c1 where
    c1: "send 100 ?c = Inr c1"
    and cover: "\<forall>a. ack_sessionID a = sessionID (session c1) \<and>
          ack_totalCount a = totalCount (session c1) \<and>
          ack_totalSize a = totalSize (session c1) \<longrightarrow>
        (\<exists>c2 eff. ackObserver 150 (Some a) c1 = Inr (c2, eff) \<and>
           unackedCount (session c2) = 0 \<and> unackedSize (session c2) = 0 \<and>
           (unackedCount (session c2) = unackedCount (session ?c) \<and>
            unackedSize (session c2) = unackedSize (session ?c) \<longleftrightarrow>
              unackedCount (session ?c) = 0 \<and> unackedSize (session ?c) = 0))"
    by blast
  from c1 h3 have "c1 = oneSent" by simp
  with cover h4 obtain c2 eff where
    c2: "ackObserver 150 (Some ackOne) oneSent = Inr (c2, eff)"
      "unackedCount (session c2) = 0" "unackedSize (session c2) = 0"
    by blast
  from c2(1) h5 have "c2 = oneAcked" by simp
  with c2 z h0 h1 h2 h3 h4 h5 show ?thesis by simp
qed


theorem latency_samples_witness:
  "wellformed twoSent \<and> accepted twoSent ackTwo \<and>
   (\<exists>c' eff. ackObserver 250 (Some ackTwo) twoSent = Inr (c', eff) \<and>
     length (ringReads eff) =
       unat (ack_totalCount ackTwo) -
       unat (totalCount (session twoSent) - unackedCount (session twoSent)) \<and>
     requestLatency c' =
       requestLatency twoSent @ map (\<lambda>i. 250 - requestIssueTimes twoSent ! i) (ringReads eff) \<and>
     ringReads eff =
       map (\<lambda>reqid. reqid mod unat (pipelineCount (config (session twoSent))))
         [unat (totalCount (session twoSent) - unackedCount (session twoSent)) ..<
          unat (ack_totalCount ackTwo)] \<and>
     (\<forall>i \<in> set (ringReads eff). i < unat (pipelineCount (config (session twoSent)))) \<and>
     eff = \<lparr>warnings = [], ringReads = [0, 1], promiseSet = False\<rparr> \<and> c' = twoAcked)"
proof -
  have h1: "wellformed twoSent" by code_simp
  have h2: "accepted twoSent ackTwo" by code_simp
  have h3: "ackObserver 250 (Some ackTwo) twoSent =
     Inr (twoAcked, \<lparr>warnings = [], ringReads = [0, 1], promiseSet = False\<rparr>)"
    by code_simp
  from latency_samples [OF h1 h2, of 250] h3 h1 h2 show ?thesis by auto
qed

end
